theory Spec2Isabelle
  imports Main "HOL-Library.Signed_Division"
begin

section \<open>A068994: the last DIGITS decimal digits of powers of two\<close>

text \<open>
  The program of \<^verbatim>\<open>src/A068994/main.c\<close> keeps, per thread, an array \<^verbatim>\<open>tail\<close> of
  \<^verbatim>\<open>DIGITS\<close> C \<^verbatim>\<open>int\<close>s holding the decimal digits of a power of two, least significant
  digit first, and multiplies it by 16 again and again, printing it whenever all its digits
  are even.

  The embedding:
  \<^item> a C \<^verbatim>\<open>int\<close> is an \<open>int\<close> together with a range check: signed overflow is undefined
    behaviour in C, so every \<^verbatim>\<open>+\<close> and \<^verbatim>\<open>*\<close> of the source is a checked operation that
    returns the error \<open>SignedOverflow\<close> outside the range of the type;
  \<^item> \<^verbatim>\<open>/\<close> and \<^verbatim>\<open>%\<close> truncate towards zero: \<open>sdiv\<close> and \<open>smod\<close>;
  \<^item> the array is an \<open>int list\<close>; a read or write at an index outside it is the error
    \<open>OutOfBounds\<close>;
  \<^item> the globals \<^verbatim>\<open>DIGITS\<close> and \<^verbatim>\<open>BATCH\<close> are variables of the source (not constants),
    read by the functions: they are parameters of the model, and \<open>DIGITS\<close>, \<open>BATCH\<close> below
    are the values the source gives them;
  \<^item> what a function writes to standard output is returned as a string, which the caller
    appends to the output of its thread.
\<close>

subsection \<open>C integers and results\<close>

datatype error = SignedOverflow | OutOfBounds | AssertionFailed

type_synonym 'a result = "error + 'a"

definition bind_result :: "'a result \<Rightarrow> ('a \<Rightarrow> 'b result) \<Rightarrow> 'b result" where
  "bind_result m f = (case m of Inl e \<Rightarrow> Inl e | Inr x \<Rightarrow> f x)"

definition INT_MIN :: int where "INT_MIN = - (2 ^ 31)"
definition INT_MAX :: int where "INT_MAX = 2 ^ 31 - 1"
definition LLONG_MIN :: int where "LLONG_MIN = - (2 ^ 63)"
definition LLONG_MAX :: int where "LLONG_MAX = 2 ^ 63 - 1"

definition in_int :: "int \<Rightarrow> bool" where
  "in_int x \<longleftrightarrow> INT_MIN \<le> x \<and> x \<le> INT_MAX"

definition in_llong :: "int \<Rightarrow> bool" where
  "in_llong x \<longleftrightarrow> LLONG_MIN \<le> x \<and> x \<le> LLONG_MAX"

definition int_add :: "int \<Rightarrow> int \<Rightarrow> int result" where
  "int_add a b = (if in_int (a + b) then Inr (a + b) else Inl SignedOverflow)"

definition int_mul :: "int \<Rightarrow> int \<Rightarrow> int result" where
  "int_mul a b = (if in_int (a * b) then Inr (a * b) else Inl SignedOverflow)"

definition llong_add :: "int \<Rightarrow> int \<Rightarrow> int result" where
  "llong_add a b = (if in_llong (a + b) then Inr (a + b) else Inl SignedOverflow)"

text \<open>\<^verbatim>\<open>putchar(c)\<close> writes \<^verbatim>\<open>c\<close> converted to \<^verbatim>\<open>unsigned char\<close>: its low eight bits.\<close>

definition putchar :: "int \<Rightarrow> char" where
  "putchar c = char_of c"

subsection \<open>The globals\<close>

definition DIGITS :: nat where "DIGITS = 40"
definition BATCH :: int where "BATCH = 1000000000"

subsection \<open>times16\<close>

text \<open>
  The state of the first loop of \<^verbatim>\<open>times16\<close> is the array and the locals \<^verbatim>\<open>carry\<close> and
  \<^verbatim>\<open>good\<close>. One iteration, at index \<open>i\<close>:
  \<^verbatim>\<open>
      next_carry = tail[i];
      tail[i] *= 6;
      tail[i] += carry;
      next_carry += tail[i] / 10;
      tail[i] %= 10;
      good &= tail[i] % 2 == 0;
      carry = next_carry;
  \<close>
\<close>

type_synonym loop_state = "int list \<times> int \<times> int"

definition times16_body :: "nat \<Rightarrow> loop_state \<Rightarrow> loop_state result" where
  "times16_body i s =
     (case s of (tail, carry, good) \<Rightarrow>
        if length tail \<le> i then Inl OutOfBounds
        else
          bind_result (int_mul (tail ! i) 6) (\<lambda>t1.
          bind_result (int_add t1 carry) (\<lambda>t2.
          bind_result (int_add (tail ! i) (t2 sdiv 10)) (\<lambda>next_carry.
            let t3 = t2 smod 10;
                good' = and good (of_bool (t3 smod 2 = 0))
            in Inr (tail[i := t3], next_carry, good')))))"

text \<open>
  \<^verbatim>\<open>for (int i = 0; i < DIGITS; i++)\<close>. The index stays below \<^verbatim>\<open>DIGITS\<close>, itself
  an \<^verbatim>\<open>int\<close>, so \<^verbatim>\<open>i++\<close> cannot overflow and the index is a \<open>nat\<close>.
\<close>

function times16_loop :: "nat \<Rightarrow> nat \<Rightarrow> loop_state \<Rightarrow> loop_state result" where
  "times16_loop D i s =
     (if i < D then
        (case times16_body i s of
           Inl e \<Rightarrow> Inl e
         | Inr s' \<Rightarrow> times16_loop D (Suc i) s')
      else Inr s)"
  by pat_completeness auto
termination
  by (relation "measure (\<lambda>(D, i, s). D - i)") auto

declare times16_loop.simps [simp del]

text \<open>
  \<^verbatim>\<open>for (int j = DIGITS - 1; j >= 0; j--) putchar(tail[j] + '0');\<close>
  The argument \<open>n\<close> is \<open>j + 1\<close>; the character \<^verbatim>\<open>'0'\<close> is 48.
\<close>

fun print_loop :: "int list \<Rightarrow> nat \<Rightarrow> string result" where
  "print_loop tail 0 = Inr []"
| "print_loop tail (Suc j) =
     (if length tail \<le> j then Inl OutOfBounds
      else
        bind_result (int_add (tail ! j) 48) (\<lambda>c.
        bind_result (print_loop tail j) (\<lambda>rest.
          Inr (putchar c # rest))))"

text \<open>
  \<^verbatim>\<open>times16\<close> returns the array and what it printed: the digits and a newline (character
  10) if \<^verbatim>\<open>good\<close> is not zero, nothing otherwise.
\<close>

definition times16 :: "nat \<Rightarrow> int list \<Rightarrow> (int list \<times> string) result" where
  "times16 D tail =
     bind_result (times16_loop D 0 (tail, 0, 1)) (\<lambda>(tail', carry, good).
       if good \<noteq> 0 then
         bind_result (print_loop tail' D) (\<lambda>printed.
           Inr (tail', printed @ [putchar 10]))
       else Inr (tail', []))"

subsection \<open>The threads\<close>

text \<open>
  Each thread of the parallel region owns its array and its counter \<^verbatim>\<open>steps\<close>
  (a \<^verbatim>\<open>long long\<close>). Standard output is shared and the order in which the threads'
  lines interleave is not determined by the program, so the model keeps, per thread, what
  that thread has written.
\<close>

record worker =
  w_tail :: "int list"
  w_steps :: int
  w_out :: string

text \<open>
  \<^verbatim>\<open>for (int i = 0; i < omp_get_thread_num(); i++) tail[0] *= 2;\<close>
\<close>

function seed_loop :: "nat \<Rightarrow> nat \<Rightarrow> int list \<Rightarrow> int list result" where
  "seed_loop tid i tail =
     (if i < tid then
        (if length tail \<le> 0 then Inl OutOfBounds
         else
           (case int_mul (tail ! 0) 2 of
              Inl e \<Rightarrow> Inl e
            | Inr v \<Rightarrow> seed_loop tid (Suc i) (tail[0 := v])))
      else Inr tail)"
  by pat_completeness auto
termination
  by (relation "measure (\<lambda>(tid, i, tail). tid - i)") auto

declare seed_loop.simps [simp del]

text \<open>
  \<^verbatim>\<open>int tail[DIGITS]; memset(tail, 0, sizeof(tail)); tail[0] = 1;\<close> the seeding loop, and
  \<^verbatim>\<open>long long steps = 0;\<close>. An array of no elements has no index 0.
\<close>

definition thread_init :: "nat \<Rightarrow> nat \<Rightarrow> worker result" where
  "thread_init D tid =
     (if D = 0 then Inl OutOfBounds
      else
        bind_result (seed_loop tid 0 ((replicate D 0)[0 := 1])) (\<lambda>tail.
          Inr \<lparr>w_tail = tail, w_steps = 0, w_out = []\<rparr>))"

text \<open>The body of the inner loop: \<^verbatim>\<open>times16(tail); steps++;\<close>\<close>

definition batch_body :: "nat \<Rightarrow> worker \<Rightarrow> worker result" where
  "batch_body D w =
     bind_result (times16 D (w_tail w)) (\<lambda>(tail', printed).
     bind_result (llong_add (w_steps w) 1) (\<lambda>steps'.
       Inr \<lparr>w_tail = tail', w_steps = steps', w_out = w_out w @ printed\<rparr>))"

text \<open>
  \<^verbatim>\<open>for (int i = 0; i < BATCH; i++)\<close>: the counter is an \<^verbatim>\<open>int\<close> compared with a
  \<^verbatim>\<open>long long\<close>, so here \<^verbatim>\<open>i++\<close> is checked.
\<close>

function batch_loop :: "nat \<Rightarrow> int \<Rightarrow> int \<Rightarrow> worker \<Rightarrow> worker result" where
  "batch_loop D B i w =
     (if i < B then
        (case batch_body D w of
           Inl e \<Rightarrow> Inl e
         | Inr w' \<Rightarrow>
             (case int_add i 1 of
                Inl e \<Rightarrow> Inl e
              | Inr i' \<Rightarrow> batch_loop D B i' w'))
      else Inr w)"
  by pat_completeness auto
termination
  by (relation "measure (\<lambda>(D, B, i, w). nat (B - i))")
    (auto simp: int_add_def split: if_splits)

declare batch_loop.simps [simp del]

text \<open>
  \<^verbatim>\<open>printf("Steps: %lld from %d\n", steps, omp_get_thread_num());\<close>
  The conversions \<^verbatim>\<open>%lld\<close> and \<^verbatim>\<open>%d\<close> of the C library write a signed decimal numeral.
\<close>

definition digit_char :: "nat \<Rightarrow> char" where
  "digit_char n = ''0123456789'' ! n"

fun show_nat :: "nat \<Rightarrow> string" where
  "show_nat n = (if n < 10 then [digit_char n] else show_nat (n div 10) @ [digit_char (n mod 10)])"

declare show_nat.simps [simp del]

definition show_int :: "int \<Rightarrow> string" where
  "show_int i = (if i < 0 then CHR ''-'' # show_nat (nat (- i)) else show_nat (nat i))"

definition progress_line :: "int \<Rightarrow> int \<Rightarrow> string" where
  "progress_line steps tid =
     ''Steps: '' @ show_int steps @ '' from '' @ show_int tid @ [putchar 10]"

text \<open>
  \<^verbatim>\<open>while (1) { for (...) { ... } printf(...); }\<close> never returns. The model runs it for
  a given number of rounds (the fuel \<open>k\<close>) and returns the state reached; it is total.
\<close>

fun worker_loop :: "nat \<Rightarrow> int \<Rightarrow> nat \<Rightarrow> nat \<Rightarrow> worker \<Rightarrow> worker result" where
  "worker_loop D B tid 0 w = Inr w"
| "worker_loop D B tid (Suc k) w =
     (case batch_loop D B 0 w of
        Inl e \<Rightarrow> Inl e
      | Inr w' \<Rightarrow>
          worker_loop D B tid k
            (w'\<lparr>w_out := w_out w' @ progress_line (w_steps w') (int tid)\<rparr>))"

definition thread_body :: "nat \<Rightarrow> int \<Rightarrow> nat \<Rightarrow> nat \<Rightarrow> worker result" where
  "thread_body D B tid k = bind_result (thread_init D tid) (worker_loop D B tid k)"

text \<open>
  \<^verbatim>\<open>main\<close>: the assertion on \<^verbatim>\<open>omp_get_max_threads()\<close>, then the parallel region. Both
  the value of \<^verbatim>\<open>omp_get_max_threads()\<close> and the size of the team that enters the region
  are decided by the OpenMP runtime and are inputs of the model: the first is an upper
  bound on the second, and the source never reads the second. The threads of the team are
  numbered from 0. The result of the region is the list of the threads' results after \<open>k\<close>
  rounds each.
\<close>

definition main :: "nat \<Rightarrow> int \<Rightarrow> int \<Rightarrow> nat \<Rightarrow> nat \<Rightarrow> worker result list result" where
  "main D B max_threads team k =
     (if max_threads \<noteq> 4 then Inl AssertionFailed
      else Inr (map (\<lambda>tid. thread_body D B tid k) [0..<team]))"

subsection \<open>What the claims speak of\<close>

text \<open>
  A buffer is well formed when it has \<open>D\<close> elements, each a decimal digit. Its value reads
  it with index 0 least significant.
\<close>

definition is_digit :: "int \<Rightarrow> bool" where
  "is_digit d \<longleftrightarrow> 0 \<le> d \<and> d \<le> 9"

definition wf_buffer :: "nat \<Rightarrow> int list \<Rightarrow> bool" where
  "wf_buffer D tail \<longleftrightarrow> length tail = D \<and> list_all is_digit tail"

fun digits_value :: "int list \<Rightarrow> int" where
  "digits_value [] = 0"
| "digits_value (d # ds) = d + 10 * digits_value ds"

definition all_even :: "int list \<Rightarrow> bool" where
  "all_even tail = list_all (\<lambda>d. d mod 2 = 0) tail"

text \<open>
  The pass in exact integer arithmetic, as the specification words it: the new digit is
  \<open>(old * 6 + carry) mod 10\<close>, the next carry is \<open>old + (old * 6 + carry) div 10\<close>,
  with no range check and the mathematical \<open>div\<close> and \<open>mod\<close>.
\<close>

fun exact_digits :: "int \<Rightarrow> int list \<Rightarrow> int list" where
  "exact_digits carry [] = []"
| "exact_digits carry (d # ds) =
     (d * 6 + carry) mod 10 # exact_digits (d + (d * 6 + carry) div 10) ds"

fun exact_carry :: "int \<Rightarrow> int list \<Rightarrow> int" where
  "exact_carry carry [] = carry"
| "exact_carry carry (d # ds) = exact_carry (d + (d * 6 + carry) div 10) ds"

text \<open>A match line: the digits, most significant first, then a newline.\<close>

definition match_line :: "int list \<Rightarrow> string" where
  "match_line tail = map (\<lambda>d. digit_char (nat d)) (rev tail) @ [CHR 0x0A]"

text \<open>\<open>k\<close> applications of \<^verbatim>\<open>times16\<close> in a row: the last buffer and all that was printed.\<close>

fun times16_iter :: "nat \<Rightarrow> nat \<Rightarrow> int list \<Rightarrow> (int list \<times> string) result" where
  "times16_iter D 0 tail = Inr (tail, [])"
| "times16_iter D (Suc k) tail =
     bind_result (times16 D tail) (\<lambda>(tail1, out1).
     bind_result (times16_iter D k tail1) (\<lambda>(tail2, out2).
       Inr (tail2, out1 @ out2)))"

text \<open>The buffer of thread \<open>tid\<close> after \<open>k\<close> applications, and what they printed.\<close>

definition worker_buffer :: "nat \<Rightarrow> nat \<Rightarrow> nat \<Rightarrow> (int list \<times> string) result" where
  "worker_buffer D tid k = bind_result (thread_init D tid) (\<lambda>w. times16_iter D k (w_tail w))"




text \<open>
  \<open>k\<close> applications in exact arithmetic: the exact pass \<open>k\<close> times, and the match lines of
  the buffers with even digits only, in the order they arise.
\<close>

fun exact_iter :: "nat \<Rightarrow> int list \<Rightarrow> int list \<times> string" where
  "exact_iter 0 tail = (tail, [])"
| "exact_iter (Suc k) tail =
     (let tail1 = exact_digits 0 tail;
          (tail2, out2) = exact_iter k tail1
      in (tail2, (if all_even tail1 then match_line tail1 else []) @ out2))"

section \<open>Properties of the model\<close>

subsection \<open>The multiplication pass\<close>

lemma bind_result_Inr [simp]: "bind_result (Inr x) f = f x"
  by (simp add: bind_result_def)

lemma bind_result_Inl [simp]: "bind_result (Inl e) f = Inl e"
  by (simp add: bind_result_def)

lemma int_mul_digit: "is_digit d \<Longrightarrow> int_mul d 6 = Inr (d * 6)"
  by (simp add: int_mul_def in_int_def INT_MIN_def INT_MAX_def is_digit_def)

lemma int_add_small:
  "- 1000 \<le> a \<Longrightarrow> a \<le> 1000 \<Longrightarrow> - 1000 \<le> b \<Longrightarrow> b \<le> 1000 \<Longrightarrow> int_add a b = Inr (a + b)"
  by (simp add: int_add_def in_int_def INT_MIN_def INT_MAX_def)

lemma sdiv_nonneg: "0 \<le> (a::int) \<Longrightarrow> a sdiv 10 = a div 10"
  by (simp add: signed_divide_int_def sgn_if)

lemma smod_nonneg: "0 \<le> (a::int) \<Longrightarrow> 0 < b \<Longrightarrow> a smod b = a mod b"
  by (simp add: signed_modulo_int_def sgn_if)

lemma step_bounds:
  assumes "is_digit d" "0 \<le> c" "c \<le> 15"
  shows "0 \<le> d * 6 + c" "d * 6 + c \<le> 69" "0 \<le> (d * 6 + c) div 10" "(d * 6 + c) div 10 \<le> 6"
    "0 \<le> d + (d * 6 + c) div 10" "d + (d * 6 + c) div 10 \<le> 15"
  using assms unfolding is_digit_def by auto

lemma times16_body_digit:
  assumes "i < length tail" "is_digit (tail ! i)" "0 \<le> c" "c \<le> 15"
  shows "times16_body i (tail, c, g) =
    Inr (tail[i := (tail ! i * 6 + c) mod 10], tail ! i + (tail ! i * 6 + c) div 10,
         and g (of_bool ((tail ! i * 6 + c) mod 10 mod 2 = 0)))"
proof -
  let ?d = "tail ! i"
  note b = step_bounds [OF assms(2-4)]
  have m: "int_mul ?d 6 = Inr (?d * 6)" by (rule int_mul_digit [OF assms(2)])
  have a1: "int_add (?d * 6) c = Inr (?d * 6 + c)"
    using assms(2-4) by (intro int_add_small) (auto simp: is_digit_def)
  have q: "(?d * 6 + c) sdiv 10 = (?d * 6 + c) div 10" by (rule sdiv_nonneg [OF b(1)])
  have r: "(?d * 6 + c) smod 10 = (?d * 6 + c) mod 10" by (rule smod_nonneg [OF b(1)]) simp
  have r2: "(?d * 6 + c) mod 10 smod 2 = (?d * 6 + c) mod 10 mod 2"
    by (rule smod_nonneg) simp_all
  have a2: "int_add ?d ((?d * 6 + c) div 10) = Inr (?d + (?d * 6 + c) div 10)"
    using assms(2) b(3,4) by (intro int_add_small) (auto simp: is_digit_def)
  show ?thesis
    using assms(1) by (simp add: times16_body_def m a1 q r r2 a2 Let_def)
qed

lemma and_flag:
  "g = 0 \<or> g = 1 \<Longrightarrow> and (g::int) (of_bool b) = (if b then g else 0)"
  by auto

lemma times16_loop_exact:
  assumes "list_all is_digit ds" "0 \<le> c" "c \<le> 15" "g = 0 \<or> g = 1"
  shows "times16_loop (length xs + length ds) (length xs) (xs @ ds @ ys, c, g) =
    Inr (xs @ exact_digits c ds @ ys, exact_carry c ds,
         if all_even (exact_digits c ds) then g else 0)"
  using assms
proof (induction ds arbitrary: xs c g)
  case Nil
  then show ?case by (simp add: times16_loop.simps all_even_def)
next
  case (Cons d ds)
  from Cons.prems have d: "is_digit d" and ds: "list_all is_digit ds" by simp_all
  note b = step_bounds [OF d Cons.prems(2,3)]
  define t where "t = (d * 6 + c) mod 10"
  define c' where "c' = d + (d * 6 + c) div 10"
  define g' where "g' = (if t mod 2 = 0 then g else 0)"
  have g': "g' = 0 \<or> g' = 1" using Cons.prems(4) by (auto simp: g'_def)
  have c': "0 \<le> c'" "c' \<le> 15" using b(5,6) by (simp_all add: c'_def)
  have body: "times16_body (length xs) (xs @ d # ds @ ys, c, g) = Inr (xs @ t # ds @ ys, c', g')"
    using times16_body_digit [of "length xs" "xs @ d # ds @ ys" c g] d Cons.prems(2,3)
    by (simp add: and_flag [OF Cons.prems(4)] t_def c'_def g'_def)
  have IH: "times16_loop (length (xs @ [t]) + length ds) (length (xs @ [t]))
      ((xs @ [t]) @ ds @ ys, c', g') =
    Inr ((xs @ [t]) @ exact_digits c' ds @ ys, exact_carry c' ds,
         if all_even (exact_digits c' ds) then g' else 0)"
    by (rule Cons.IH [OF ds c' g'])
  have "times16_loop (length xs + length (d # ds)) (length xs) (xs @ (d # ds) @ ys, c, g) =
    times16_loop (length xs + length (d # ds)) (Suc (length xs)) (xs @ t # ds @ ys, c', g')"
    by (subst times16_loop.simps) (simp add: body)
  also have "\<dots> = Inr ((xs @ [t]) @ exact_digits c' ds @ ys, exact_carry c' ds,
         if all_even (exact_digits c' ds) then g' else 0)"
    using IH by simp
  also have "\<dots> = Inr (xs @ exact_digits c (d # ds) @ ys, exact_carry c (d # ds),
         if all_even (exact_digits c (d # ds)) then g else 0)"
    by (simp add: all_even_def t_def c'_def g'_def)
  finally show ?case .
qed

lemma length_exact_digits [simp]: "length (exact_digits c ds) = length ds"
  by (induction ds arbitrary: c) simp_all

lemma exact_digits_digit: "list_all is_digit (exact_digits c ds)"
  by (induction ds arbitrary: c) (simp_all add: is_digit_def)

lemma exact_carry_bound:
  "list_all is_digit ds \<Longrightarrow> 0 \<le> c \<Longrightarrow> c \<le> 15 \<Longrightarrow> 0 \<le> exact_carry c ds \<and> exact_carry c ds \<le> 15"
proof (induction ds arbitrary: c)
  case Nil
  then show ?case by simp
next
  case (Cons d ds)
  from Cons.prems have d: "is_digit d" and ds: "list_all is_digit ds" by simp_all
  note b = step_bounds [OF d Cons.prems(2,3)]
  show ?case using Cons.IH [OF ds b(5,6)] by simp
qed

lemma exact_value:
  "digits_value (exact_digits c ds) + exact_carry c ds * 10 ^ length ds = 16 * digits_value ds + c"
proof (induction ds arbitrary: c)
  case Nil
  then show ?case by simp
next
  case (Cons d ds)
  let ?c = "d + (d * 6 + c) div 10"
  have "digits_value (exact_digits c (d # ds)) + exact_carry c (d # ds) * 10 ^ length (d # ds) =
    (d * 6 + c) mod 10 + 10 * (digits_value (exact_digits ?c ds) + exact_carry ?c ds * 10 ^ length ds)"
    by (simp add: algebra_simps)
  also have "\<dots> = (d * 6 + c) mod 10 + 10 * (16 * digits_value ds + ?c)"
    by (simp only: Cons.IH)
  also have "\<dots> = ((d * 6 + c) mod 10 + 10 * ((d * 6 + c) div 10)) + 10 * d + 160 * digits_value ds"
    by (simp add: algebra_simps)
  also have "\<dots> = (d * 6 + c) + 10 * d + 160 * digits_value ds"
    by simp
  finally show ?case by (simp add: algebra_simps)
qed

lemma digits_value_bounds:
  "list_all is_digit ds \<Longrightarrow> 0 \<le> digits_value ds \<and> digits_value ds < 10 ^ length ds"
  by (induction ds) (auto simp: is_digit_def)

lemma exact_value_mod:
  "digits_value (exact_digits c ds) = (16 * digits_value ds + c) mod 10 ^ length ds"
proof -
  have b: "0 \<le> digits_value (exact_digits c ds) \<and> digits_value (exact_digits c ds) < 10 ^ length ds"
    using digits_value_bounds [OF exact_digits_digit, of c ds] by simp
  have "(16 * digits_value ds + c) mod 10 ^ length ds =
     (digits_value (exact_digits c ds) + exact_carry c ds * 10 ^ length ds) mod 10 ^ length ds"
    by (simp only: exact_value)
  also have "\<dots> = digits_value (exact_digits c ds) mod 10 ^ length ds"
    by simp
  also have "\<dots> = digits_value (exact_digits c ds)"
    using b by simp
  finally show ?thesis by simp
qed

lemma digit_cases:
  "is_digit d \<Longrightarrow> d = 0 \<or> d = 1 \<or> d = 2 \<or> d = 3 \<or> d = 4 \<or> d = 5 \<or> d = 6 \<or> d = 7 \<or> d = 8 \<or> d = 9"
  unfolding is_digit_def by arith

lemma putchar_digit: "is_digit d \<Longrightarrow> putchar (d + 48) = digit_char (nat d)"
  by (drule digit_cases) (auto simp: putchar_def digit_char_def char_of_def)

lemma putchar_newline: "putchar 10 = CHR 0x0A"
  by (simp add: putchar_def char_of_def)

lemma int_add_digit: "is_digit d \<Longrightarrow> int_add d 48 = Inr (d + 48)"
  by (rule int_add_small) (auto simp: is_digit_def)

lemma print_loop_digits:
  "n \<le> length t \<Longrightarrow> list_all is_digit t \<Longrightarrow>
   print_loop t n = Inr (map (\<lambda>d. digit_char (nat d)) (rev (take n t)))"
proof (induction n)
  case 0
  then show ?case by simp
next
  case (Suc n)
  from Suc.prems have n: "n < length t" by simp
  with Suc.prems have d: "is_digit (t ! n)" by (simp add: list_all_length)
  have "print_loop t n = Inr (map (\<lambda>d. digit_char (nat d)) (rev (take n t)))"
    using Suc by simp
  then show ?case
    using n by (simp add: int_add_digit [OF d] putchar_digit [OF d] take_Suc_conv_app_nth)
qed

lemma times16_loop_wf:
  assumes "wf_buffer D t"
  shows "times16_loop D 0 (t, 0, 1) =
    Inr (exact_digits 0 t, exact_carry 0 t, if all_even (exact_digits 0 t) then 1 else 0)"
  using assms times16_loop_exact [of t 0 1 "[]" "[]"] by (simp add: wf_buffer_def)

lemma times16_wf:
  assumes "wf_buffer D t"
  shows "times16 D t =
    Inr (exact_digits 0 t, if all_even (exact_digits 0 t) then match_line (exact_digits 0 t) else [])"
proof -
  have len: "D \<le> length (exact_digits 0 t)" using assms by (simp add: wf_buffer_def)
  have "print_loop (exact_digits 0 t) D = Inr (map (\<lambda>d. digit_char (nat d)) (rev (exact_digits 0 t)))"
    using print_loop_digits [OF len exact_digits_digit] assms by (simp add: wf_buffer_def)
  then show ?thesis
    by (simp add: times16_def times16_loop_wf [OF assms] match_line_def putchar_newline)
qed

lemma exact_digits_wf: "wf_buffer D t \<Longrightarrow> wf_buffer D (exact_digits c t)"
  by (simp add: wf_buffer_def exact_digits_digit)

lemma exact_digits_zero: "exact_digits 0 (replicate n 0) = replicate n 0"
  by (induction n) simp_all

lemma times16_loop_split:
  "i \<le> j \<Longrightarrow> j \<le> D \<Longrightarrow>
   times16_loop D i s = bind_result (times16_loop j i s) (times16_loop D j)"
proof (induction j i s rule: times16_loop.induct)
  case (1 j i s)
  show ?case
  proof (cases "i < j")
    case True
    show ?thesis
    proof (cases "times16_body i s")
      case (Inl e)
      with True "1.prems" show ?thesis
        by (simp add: times16_loop.simps [of D i] times16_loop.simps [of j i])
    next
      case (Inr s')
      have "times16_loop D (Suc i) s' = bind_result (times16_loop j (Suc i) s') (times16_loop D j)"
        using "1.IH" [OF True Inr] True "1.prems" by simp
      with True Inr "1.prems" show ?thesis
        by (simp add: times16_loop.simps [of D i] times16_loop.simps [of j i])
    qed
  next
    case False
    with "1.prems" have "i = j" by simp
    then show ?thesis by (simp add: times16_loop.simps [of j j])
  qed
qed

lemma match_line_shape:
  assumes "list_all is_digit t"
  shows "length (match_line t) = length t + 1"
    and "list_all (\<lambda>c. c \<in> set ''0123456789'') (butlast (match_line t))"
    and "last (match_line t) = CHR 0x0A"
proof -
  show "length (match_line t) = length t + 1" by (simp add: match_line_def)
  show "last (match_line t) = CHR 0x0A" by (simp add: match_line_def)
  have "\<And>d. is_digit d \<Longrightarrow> digit_char (nat d) \<in> set ''0123456789''"
    by (drule digit_cases) (auto simp: digit_char_def)
  with assms show "list_all (\<lambda>c. c \<in> set ''0123456789'') (butlast (match_line t))"
    by (simp add: match_line_def list_all_iff)
qed

lemma times16_loop_prefix:
  assumes "wf_buffer D tail" "j \<le> D"
  shows "times16_loop j 0 (tail, 0, 1) =
    Inr (exact_digits 0 (take j tail) @ drop j tail, exact_carry 0 (take j tail),
         if all_even (exact_digits 0 (take j tail)) then 1 else 0)"
proof -
  have len: "length (take j tail) = j" using assms by (simp add: wf_buffer_def)
  have dig: "list_all is_digit (take j tail)"
    using assms(1) by (auto simp: wf_buffer_def list_all_iff dest: in_set_takeD)
  show ?thesis
    using times16_loop_exact [OF dig, of 0 1 "[]" "drop j tail"] len by simp
qed

subsection \<open>Seeding\<close>

lemma seed_loop_pow:
  assumes "tail \<noteq> []" "0 \<le> tail ! 0" "tail ! 0 * 2 ^ (tid - i) \<le> INT_MAX" "i \<le> tid"
  shows "seed_loop tid i tail = Inr (tail[0 := tail ! 0 * 2 ^ (tid - i)])"
  using assms
proof (induction tid i tail rule: seed_loop.induct)
  case (1 tid i tail)
  show ?case
  proof (cases "i < tid")
    case True
    then have p: "(2::int) ^ (tid - i) = 2 * 2 ^ (tid - Suc i)"
      by (simp add: Suc_diff_Suc flip: power_Suc)
    have le: "tail ! 0 * 2 \<le> tail ! 0 * 2 ^ (tid - i)"
      using "1.prems"(2) by (simp add: p mult_left_mono)
    have m: "int_mul (tail ! 0) 2 = Inr (tail ! 0 * 2)"
      using "1.prems"(2,3) le by (simp add: int_mul_def in_int_def INT_MIN_def INT_MAX_def)
    have len: "\<not> length tail \<le> 0" using "1.prems"(1) by simp
    have "seed_loop tid (Suc i) (tail[0 := tail ! 0 * 2]) =
      Inr ((tail[0 := tail ! 0 * 2])[0 := (tail[0 := tail ! 0 * 2]) ! 0 * 2 ^ (tid - Suc i)])"
      using "1.IH" [OF True len m] "1.prems" True len by (simp add: p mult.assoc)
    then show ?thesis
      using True len m by (subst seed_loop.simps) (simp add: p mult.assoc)
  next
    case False
    with "1.prems" show ?thesis by (subst seed_loop.simps) simp
  qed
qed

lemma thread_init_pow:
  assumes "0 < D" "tid \<le> 30"
  shows "thread_init D tid = Inr \<lparr>w_tail = 2 ^ tid # replicate (D - 1) 0, w_steps = 0, w_out = []\<rparr>"
proof -
  obtain n where D: "D = Suc n" using assms(1) by (cases D) simp_all
  have "(2::int) ^ tid \<le> 2 ^ 30" using assms(2) by (intro power_increasing) simp_all
  then have b: "(2::int) ^ tid \<le> INT_MAX" by (simp add: INT_MAX_def)
  have "seed_loop tid 0 (1 # replicate n 0) = Inr ((1 # replicate n 0)[0 := (1 # replicate n 0) ! 0 * 2 ^ (tid - 0)])"
    by (rule seed_loop_pow) (use b in simp_all)
  then show ?thesis by (simp add: thread_init_def D)
qed

lemma digits_value_replicate_zero [simp]: "digits_value (replicate n 0) = 0"
  by (induction n) simp_all

lemma pow2_digit: "tid < 4 \<Longrightarrow> is_digit (2 ^ tid)"
proof -
  assume "tid < 4"
  then have "tid = 0 \<or> tid = 1 \<or> tid = 2 \<or> tid = 3" by arith
  then show ?thesis by (auto simp: is_digit_def)
qed

lemma seed_wf: "0 < D \<Longrightarrow> tid < 4 \<Longrightarrow> wf_buffer D (2 ^ tid # replicate (D - 1) 0)"
  using pow2_digit [of tid] by (cases D) (simp_all add: wf_buffer_def list_all_iff is_digit_def)

subsection \<open>Repeated application\<close>

lemma exact_iter_Suc:
  "fst (exact_iter (Suc k) t) = fst (exact_iter k (exact_digits 0 t))"
  "snd (exact_iter (Suc k) t) =
     (if all_even (exact_digits 0 t) then match_line (exact_digits 0 t) else []) @
     snd (exact_iter k (exact_digits 0 t))"
  by (simp_all add: Let_def case_prod_beta)

lemma exact_iter_wf: "wf_buffer D t \<Longrightarrow> wf_buffer D (fst (exact_iter k t))"
  by (induction k arbitrary: t) (simp_all add: Let_def case_prod_beta exact_digits_wf)

lemma times16_iter_wf:
  "wf_buffer D t \<Longrightarrow> times16_iter D k t = Inr (exact_iter k t)"
proof (induction k arbitrary: t)
  case 0
  then show ?case by simp
next
  case (Suc k)
  have "times16_iter D k (exact_digits 0 t) = Inr (exact_iter k (exact_digits 0 t))"
    by (rule Suc.IH [OF exact_digits_wf [OF Suc.prems]])
  then show ?case
    by (simp add: times16_wf [OF Suc.prems] Let_def case_prod_beta)
qed

lemma exact_iter_value:
  "wf_buffer D t \<Longrightarrow> digits_value (fst (exact_iter k t)) = (digits_value t * 16 ^ k) mod 10 ^ D"
proof (induction k arbitrary: t)
  case 0
  then show ?case
    using digits_value_bounds [of t] by (simp add: wf_buffer_def)
next
  case (Suc k)
  have len: "length t = D" using Suc.prems by (simp add: wf_buffer_def)
  have "digits_value (fst (exact_iter (Suc k) t)) =
    (digits_value (exact_digits 0 t) * 16 ^ k) mod 10 ^ D"
    using Suc.IH [OF exact_digits_wf [OF Suc.prems, of 0]] by (simp add: Let_def case_prod_beta)
  also have "\<dots> = ((16 * digits_value t) mod 10 ^ D * 16 ^ k) mod 10 ^ D"
    using exact_value_mod [of 0 t] len by simp
  also have "\<dots> = (16 * digits_value t * 16 ^ k) mod 10 ^ D"
    by (rule mod_mult_left_eq)
  finally show ?case by (simp add: mult_ac)
qed

lemma exact_iter_add:
  "exact_iter (a + b) t =
     (fst (exact_iter b (fst (exact_iter a t))),
      snd (exact_iter a t) @ snd (exact_iter b (fst (exact_iter a t))))"
  by (induction a arbitrary: t) (simp_all add: Let_def case_prod_beta)

lemma worker_buffer_exact:
  assumes "0 < D" "tid < 4"
  shows "worker_buffer D tid k = Inr (exact_iter k (2 ^ tid # replicate (D - 1) 0))"
proof -
  have t: "tid \<le> 30" using assms(2) by simp
  have "worker_buffer D tid k = times16_iter D k (2 ^ tid # replicate (D - 1) 0)"
    unfolding worker_buffer_def thread_init_pow [OF assms(1) t] by simp
  then show ?thesis
    by (simp only: times16_iter_wf [OF seed_wf [OF assms]])
qed

lemma seed_value_mod:
  assumes "0 < D" "tid < 4"
  shows "digits_value (fst (exact_iter k (2 ^ tid # replicate (D - 1) 0))) = 2 ^ (tid + 4 * k) mod 10 ^ D"
proof -
  have "(16::int) ^ k = 2 ^ (4 * k)" by (simp add: power_mult)
  then have "(2::int) ^ tid * 16 ^ k = 2 ^ (tid + 4 * k)" by (simp add: power_add)
  then show ?thesis
    using exact_iter_value [OF seed_wf [OF assms], of k] by simp
qed

lemma pow2_mod_five: "(2::int) ^ n mod 5 \<noteq> 0"
proof (induction n)
  case 0
  then show ?case by simp
next
  case (Suc n)
  define r where "r = (2::int) ^ n mod 5"
  have e: "(2::int) ^ Suc n mod 5 = (2 * r) mod 5"
    by (simp add: r_def mod_mult_right_eq)
  have "0 \<le> r" "r < 5" "r \<noteq> 0" using Suc by (simp_all add: r_def)
  then have "(2 * r) mod 5 \<noteq> 0" by presburger
  with e show ?case by simp
qed

lemma pow2_mod_pow10:
  assumes "0 < D"
  shows "(2::int) ^ n mod 10 ^ D \<noteq> 0"
proof
  assume "(2::int) ^ n mod 10 ^ D = 0"
  then have d: "(10::int) ^ D dvd 2 ^ n" by (simp add: dvd_eq_mod_eq_0)
  obtain m where D: "D = Suc m" using assms by (cases D) simp_all
  have "(5::int) dvd 10 * 10 ^ m" by (rule dvd_mult2) simp
  then have "(5::int) dvd 10 ^ D" by (simp add: D)
  then have "(5::int) dvd 2 ^ n" using d by (rule dvd_trans)
  then show False using pow2_mod_five [of n] by (simp add: dvd_eq_mod_eq_0)
qed

lemma exact_iter_zero:
  "exact_iter k (replicate D 0) =
     (replicate D 0, concat (replicate k (replicate D (CHR ''0'') @ [CHR 0x0A])))"
proof (induction k)
  case 0
  then show ?case by simp
next
  case (Suc k)
  have e: "all_even (replicate D 0)" by (simp add: all_even_def list_all_iff)
  have m: "match_line (replicate D 0) = replicate D (CHR ''0'') @ [CHR 0x0A]"
    by (simp add: match_line_def digit_char_def map_replicate_const)
  show ?case
    using Suc e m by (simp add: exact_digits_zero Let_def)
qed

subsection \<open>The inner loop and the rounds\<close>

lemma llong_add_one:
  "0 \<le> s \<Longrightarrow> s < LLONG_MAX \<Longrightarrow> llong_add s 1 = Inr (s + 1)"
  by (simp add: llong_add_def in_llong_def LLONG_MIN_def)

lemma llong_add_max: "llong_add LLONG_MAX 1 = Inl SignedOverflow"
  by (simp add: llong_add_def in_llong_def)

lemma batch_body_ok:
  assumes "wf_buffer D (w_tail w)" "0 \<le> w_steps w" "w_steps w < LLONG_MAX"
  shows "batch_body D w =
    Inr \<lparr>w_tail = fst (exact_iter 1 (w_tail w)), w_steps = w_steps w + 1,
         w_out = w_out w @ snd (exact_iter 1 (w_tail w))\<rparr>"
  by (simp add: batch_body_def times16_wf [OF assms(1)] llong_add_one [OF assms(2,3)] Let_def)

lemma batch_body_overflow:
  assumes "wf_buffer D (w_tail w)" "w_steps w = LLONG_MAX"
  shows "batch_body D w = Inl SignedOverflow"
  by (simp add: batch_body_def times16_wf [OF assms(1)] assms(2) llong_add_max)

lemma int_add_counter:
  "0 \<le> i \<Longrightarrow> i < B \<Longrightarrow> B \<le> INT_MAX \<Longrightarrow> int_add i 1 = Inr (i + 1)"
  by (simp add: int_add_def in_int_def INT_MIN_def)

lemma batch_loop_ok:
  assumes "n = nat (B - i)" "wf_buffer D (w_tail w)" "0 \<le> i" "i \<le> B" "B \<le> INT_MAX"
    "0 \<le> w_steps w" "w_steps w + (B - i) \<le> LLONG_MAX"
  shows "batch_loop D B i w =
    Inr \<lparr>w_tail = fst (exact_iter n (w_tail w)), w_steps = w_steps w + (B - i),
         w_out = w_out w @ snd (exact_iter n (w_tail w))\<rparr>"
  using assms
proof (induction n arbitrary: i w)
  case 0
  then have "\<not> i < B" and "B - i = 0" by simp_all
  then show ?case by (subst batch_loop.simps) simp
next
  case (Suc n)
  from Suc.prems(1) have lt: "i < B" by simp
  define w1 where "w1 = \<lparr>w_tail = fst (exact_iter 1 (w_tail w)), w_steps = w_steps w + 1,
         w_out = w_out w @ snd (exact_iter 1 (w_tail w))\<rparr>"
  have body: "batch_body D w = Inr w1"
    unfolding w1_def using Suc.prems lt by (intro batch_body_ok) simp_all
  have inc: "int_add i 1 = Inr (i + 1)"
    by (rule int_add_counter [OF Suc.prems(3) lt Suc.prems(5)])
  have wf1: "wf_buffer D (w_tail w1)"
    using exact_iter_wf [OF Suc.prems(2), of 1] by (simp add: w1_def)
  have "batch_loop D B (i + 1) w1 =
    Inr \<lparr>w_tail = fst (exact_iter n (w_tail w1)), w_steps = w_steps w1 + (B - (i + 1)),
         w_out = w_out w1 @ snd (exact_iter n (w_tail w1))\<rparr>"
    using Suc.prems lt wf1 by (intro Suc.IH) (simp_all add: w1_def)
  moreover have "exact_iter (Suc n) (w_tail w) =
     (fst (exact_iter n (fst (exact_iter 1 (w_tail w)))),
      snd (exact_iter 1 (w_tail w)) @ snd (exact_iter n (fst (exact_iter 1 (w_tail w)))))"
    using exact_iter_add [of 1 n "w_tail w"] by simp
  ultimately show ?case
    using lt by (subst batch_loop.simps) (simp add: body inc w1_def)
qed

lemma batch_loop_overflow:
  assumes "n = nat (LLONG_MAX - w_steps w)" "wf_buffer D (w_tail w)" "0 \<le> i" "i \<le> B"
    "B \<le> INT_MAX" "0 \<le> w_steps w" "w_steps w \<le> LLONG_MAX" "LLONG_MAX < w_steps w + (B - i)"
  shows "batch_loop D B i w = Inl SignedOverflow"
  using assms
proof (induction n arbitrary: i w)
  case 0
  then have s: "w_steps w = LLONG_MAX" and lt: "i < B" by simp_all
  show ?case
    using lt by (subst batch_loop.simps) (simp add: batch_body_overflow [OF "0.prems"(2) s])
next
  case (Suc n)
  from Suc.prems have s: "w_steps w < LLONG_MAX" and lt: "i < B" by simp_all
  define w1 where "w1 = \<lparr>w_tail = fst (exact_iter 1 (w_tail w)), w_steps = w_steps w + 1,
         w_out = w_out w @ snd (exact_iter 1 (w_tail w))\<rparr>"
  have body: "batch_body D w = Inr w1"
    unfolding w1_def using Suc.prems s by (intro batch_body_ok) simp_all
  have inc: "int_add i 1 = Inr (i + 1)"
    by (rule int_add_counter [OF Suc.prems(3) lt Suc.prems(5)])
  have wf1: "wf_buffer D (w_tail w1)"
    using exact_iter_wf [OF Suc.prems(2), of 1] by (simp add: w1_def)
  have "batch_loop D B (i + 1) w1 = Inl SignedOverflow"
    using Suc.prems lt s wf1 by (intro Suc.IH) (simp_all add: w1_def)
  then show ?case
    using lt by (subst batch_loop.simps) (simp add: body inc)
qed

lemma worker_loop_add:
  "worker_loop D B tid (a + b) w =
     bind_result (worker_loop D B tid a w) (worker_loop D B tid b)"
  by (induction a arbitrary: w) (simp_all split: sum.splits)

lemma map_upt_shift: "map f [0..<Suc k] = f 0 # map (\<lambda>j. f (Suc j)) [0..<k]"
  by (simp only: upt_conv_Cons [of 0 "Suc k"] map_Suc_upt [symmetric] list.map map_map comp_def)

lemma worker_loop_ok:
  assumes "wf_buffer D (w_tail w)" "0 \<le> B" "B \<le> INT_MAX" "0 \<le> w_steps w"
    "w_steps w + int k * B \<le> LLONG_MAX"
  shows "worker_loop D B tid k w =
    Inr \<lparr>w_tail = fst (exact_iter (k * nat B) (w_tail w)), w_steps = w_steps w + int k * B,
         w_out = w_out w @ concat (map (\<lambda>j.
           snd (exact_iter (nat B) (fst (exact_iter (j * nat B) (w_tail w)))) @
           progress_line (w_steps w + int (Suc j) * B) (int tid)) [0..<k])\<rparr>"
  using assms
proof (induction k arbitrary: w)
  case 0
  then show ?case by simp
next
  case (Suc k)
  define w1 where "w1 = \<lparr>w_tail = fst (exact_iter (nat B) (w_tail w)), w_steps = w_steps w + B,
         w_out = w_out w @ snd (exact_iter (nat B) (w_tail w))\<rparr>"
  define w2 where "w2 = w1\<lparr>w_out := w_out w1 @ progress_line (w_steps w1) (int tid)\<rparr>"
  have kB: "0 \<le> int k * B" using Suc.prems(2) by simp
  have b: "w_steps w + B \<le> LLONG_MAX"
    using Suc.prems(5) kB by (simp add: algebra_simps)
  have batch: "batch_loop D B 0 w = Inr w1"
    using batch_loop_ok [of "nat B" B 0 D w] Suc.prems b by (simp add: w1_def)
  have wf2: "wf_buffer D (w_tail w2)"
    using exact_iter_wf [OF Suc.prems(1), of "nat B"] by (simp add: w2_def w1_def)
  have s2: "0 \<le> w_steps w2" "w_steps w2 + int k * B \<le> LLONG_MAX"
    using Suc.prems by (simp_all add: w2_def w1_def algebra_simps)
  note IH = Suc.IH [OF wf2 Suc.prems(2,3) s2]
  have t: "\<And>j. fst (exact_iter (j * nat B) (w_tail w2)) = fst (exact_iter (Suc j * nat B) (w_tail w))"
    using exact_iter_add [of "nat B" _ "w_tail w"] by (simp add: w2_def w1_def)
  have st: "\<And>j. w_steps w2 + int (Suc j) * B = w_steps w + int (Suc (Suc j)) * B"
    by (simp add: w2_def w1_def algebra_simps)
  have "worker_loop D B tid (Suc k) w = worker_loop D B tid k w2"
    by (simp add: batch w2_def)
  also have "\<dots> = Inr \<lparr>w_tail = fst (exact_iter (Suc k * nat B) (w_tail w)),
         w_steps = w_steps w2 + int k * B,
         w_out = w_out w2 @ concat (map (\<lambda>j.
           snd (exact_iter (nat B) (fst (exact_iter (Suc j * nat B) (w_tail w)))) @
           progress_line (w_steps w + int (Suc (Suc j)) * B) (int tid)) [0..<k])\<rparr>"
    unfolding IH t st ..
  also have "\<dots> = Inr \<lparr>w_tail = fst (exact_iter (Suc k * nat B) (w_tail w)),
         w_steps = w_steps w + int (Suc k) * B,
         w_out = w_out w @ concat (map (\<lambda>j.
           snd (exact_iter (nat B) (fst (exact_iter (j * nat B) (w_tail w)))) @
           progress_line (w_steps w + int (Suc j) * B) (int tid)) [0..<Suc k])\<rparr>"
    unfolding map_upt_shift by (simp add: w2_def w1_def algebra_simps)
  finally show ?case .
qed

lemma worker_loop_overflow:
  assumes "wf_buffer D (w_tail w)" "0 \<le> B" "B \<le> INT_MAX" "0 \<le> w_steps w"
    "w_steps w + int k * B \<le> LLONG_MAX" "LLONG_MAX < w_steps w + int (Suc k) * B"
  shows "worker_loop D B tid (Suc k) w = Inl SignedOverflow"
proof -
  define w1 where "w1 = \<lparr>w_tail = fst (exact_iter (k * nat B) (w_tail w)),
         w_steps = w_steps w + int k * B,
         w_out = w_out w @ concat (map (\<lambda>j.
           snd (exact_iter (nat B) (fst (exact_iter (j * nat B) (w_tail w)))) @
           progress_line (w_steps w + int (Suc j) * B) (int tid)) [0..<k])\<rparr>"
  have 1: "worker_loop D B tid k w = Inr w1"
    unfolding w1_def by (rule worker_loop_ok [OF assms(1-5)])
  have wf1: "wf_buffer D (w_tail w1)"
    using exact_iter_wf [OF assms(1), of "k * nat B"] by (simp add: w1_def)
  have kB: "0 \<le> int k * B" using assms(2) by simp
  have "batch_loop D B 0 w1 = Inl SignedOverflow"
    using assms kB wf1
    by (intro batch_loop_overflow [OF refl]) (simp_all add: w1_def algebra_simps)
  then have 2: "worker_loop D B tid (Suc 0) w1 = Inl SignedOverflow" by simp
  show ?thesis
    using worker_loop_add [of D B tid k "Suc 0" w] 1 2 by simp
qed

lemma thread_body_ok:
  assumes "0 < D" "tid < 4" "0 \<le> B" "B \<le> INT_MAX" "int k * B \<le> LLONG_MAX"
  shows "thread_body D B tid k =
    Inr \<lparr>w_tail = fst (exact_iter (k * nat B) (2 ^ tid # replicate (D - 1) 0)),
         w_steps = int k * B,
         w_out = concat (map (\<lambda>j.
           snd (exact_iter (nat B) (fst (exact_iter (j * nat B) (2 ^ tid # replicate (D - 1) 0)))) @
           progress_line (int (Suc j) * B) (int tid)) [0..<k])\<rparr>"
proof -
  define w0 where "w0 = \<lparr>w_tail = 2 ^ tid # replicate (D - 1) 0, w_steps = 0, w_out = []\<rparr>"
  have t: "tid \<le> 30" using assms(2) by simp
  have init: "thread_init D tid = Inr w0"
    unfolding w0_def by (rule thread_init_pow [OF assms(1) t])
  have wf0: "wf_buffer D (w_tail w0)"
    using seed_wf [OF assms(1,2)] by (simp add: w0_def)
  have s0: "0 \<le> w_steps w0" "w_steps w0 + int k * B \<le> LLONG_MAX"
    using assms(5) by (simp_all add: w0_def)
  have "thread_body D B tid k = worker_loop D B tid k w0"
    by (simp add: thread_body_def init)
  also note worker_loop_ok [OF wf0 assms(3,4) s0, of tid]
  finally show ?thesis by (simp add: w0_def)
qed



lemma match_line_chars:
  assumes "list_all is_digit t"
  shows "list_all (\<lambda>c. c \<in> set ''0123456789\<newline>'') (match_line t)"
proof -
  have "\<And>d. is_digit d \<Longrightarrow> digit_char (nat d) \<in> set ''0123456789\<newline>''"
    by (drule digit_cases) (auto simp: digit_char_def)
  with assms show ?thesis
    by (simp add: match_line_def list_all_iff)
qed

lemma exact_iter_chars:
  "list_all (\<lambda>c. c \<in> set ''0123456789\<newline>'') (snd (exact_iter n t))"
proof (induction n arbitrary: t)
  case 0
  then show ?case by simp
next
  case (Suc n)
  have "list_all (\<lambda>c. c \<in> set ''0123456789\<newline>'') (match_line (exact_digits 0 t))"
    by (rule match_line_chars [OF exact_digits_digit])
  with Suc [of "exact_digits 0 t"] show ?case
    by (simp add: Let_def case_prod_beta)
qed

text \<open>A run of the model on small parameters, and a progress line of the program.\<close>

lemma thread_body_example:
  "thread_body 4 3 2 2 =
     Inr \<lparr>w_tail = [4, 6, 8, 8], w_steps = 6,
          w_out = ''0064\<newline>Steps: 3 from 2\<newline>8864\<newline>Steps: 6 from 2\<newline>''\<rparr>"
  by code_simp

lemma progress_line_example: "progress_line (2 * BATCH) 3 = ''Steps: 2000000000 from 3\<newline>''"
  by (simp add: BATCH_def progress_line_def show_int_def show_nat.simps digit_char_def putchar_newline)

section \<open>The claims\<close>

text \<open>
  Claim C1. For every buffer of \<open>D\<close> digits, each in 0..9, with value \<open>V\<close> (index 0 least
  significant), \<^verbatim>\<open>times16\<close> returns without error and leaves a buffer of \<open>D\<close> digits whose
  value is \<open>V * 16 mod 10 ^ D\<close>. The carry the loop ends with is the part of \<open>V * 16\<close> above
  position \<open>D - 1\<close>: buffer and carry together are exactly \<open>V * 16\<close>, and the carry is
  dropped.
\<close>

theorem times16_value:
  assumes "wf_buffer D tail"
  shows "\<exists>tail' carry good out.
           times16_loop D 0 (tail, 0, 1) = Inr (tail', carry, good) \<and>
           times16 D tail = Inr (tail', out) \<and>
           wf_buffer D tail' \<and>
           digits_value tail' + carry * 10 ^ D = digits_value tail * 16 \<and>
           digits_value tail' = (digits_value tail * 16) mod 10 ^ D"
proof -
  have len: "length tail = D" using assms by (simp add: wf_buffer_def)
  have v: "digits_value (exact_digits 0 tail) + exact_carry 0 tail * 10 ^ D = digits_value tail * 16"
    using exact_value [of 0 tail] len by simp
  have m: "digits_value (exact_digits 0 tail) = (digits_value tail * 16) mod 10 ^ D"
    using exact_value_mod [of 0 tail] len by (simp add: mult.commute)
  show ?thesis
    using times16_loop_wf [OF assms] times16_wf [OF assms] exact_digits_wf [OF assms, of 0] v m
    by blast
qed

theorem times16_value_witness:
  "wf_buffer 4 [9, 9, 9, 9] \<and>
   (\<exists>tail' carry good out.
      times16_loop 4 0 ([9, 9, 9, 9], 0, 1) = Inr (tail', carry, good) \<and>
      times16 4 [9, 9, 9, 9] = Inr (tail', out) \<and>
      wf_buffer 4 tail' \<and>
      digits_value tail' + carry * 10 ^ 4 = 159984 \<and>
      digits_value tail' = 9984)"
proof -
  have h: "wf_buffer 4 [9, 9, 9, 9]" by (simp add: wf_buffer_def is_digit_def)
  show ?thesis using h times16_value [OF h] by simp
qed

text \<open>
  Claim C2. For every well-formed buffer, the flag \<^verbatim>\<open>good\<close> the loop of \<^verbatim>\<open>times16\<close> ends
  with is 0 or 1, and it is not zero (the test of \<^verbatim>\<open>if (good)\<close>) exactly when every one of
  the \<open>D\<close> digits of the buffer after the multiplication is even.
\<close>

theorem times16_good_flag:
  assumes "wf_buffer D tail"
  shows "\<exists>tail' carry good out.
           times16_loop D 0 (tail, 0, 1) = Inr (tail', carry, good) \<and>
           times16 D tail = Inr (tail', out) \<and>
           length tail' = D \<and>
           (good = 0 \<or> good = 1) \<and>
           (good \<noteq> 0 \<longleftrightarrow> (\<forall>i<D. tail' ! i mod 2 = 0))"
proof -
  let ?t = "exact_digits 0 tail"
  have len: "length ?t = D" using assms by (simp add: wf_buffer_def)
  have "all_even ?t \<longleftrightarrow> (\<forall>i<D. ?t ! i mod 2 = 0)"
    using len by (simp add: all_even_def list_all_length)
  then have "((if all_even ?t then 1 else 0 :: int) \<noteq> 0) \<longleftrightarrow> (\<forall>i<D. ?t ! i mod 2 = 0)"
    by simp
  moreover have "(if all_even ?t then 1 else 0 :: int) = 0 \<or> (if all_even ?t then 1 else 0 :: int) = 1"
    by simp
  ultimately show ?thesis
    using times16_loop_wf [OF assms] times16_wf [OF assms] len by blast
qed

theorem times16_good_flag_witness:
  "wf_buffer 4 [5, 2, 1, 0] \<and>
   (\<exists>tail' carry good out.
      times16_loop 4 0 ([5, 2, 1, 0], 0, 1) = Inr (tail', carry, good) \<and>
      times16 4 [5, 2, 1, 0] = Inr (tail', out) \<and>
      length tail' = 4 \<and>
      (good = 0 \<or> good = 1) \<and>
      (good \<noteq> 0 \<longleftrightarrow> (\<forall>i<4. tail' ! i mod 2 = 0)))"
proof -
  have h: "wf_buffer 4 [5, 2, 1, 0]" by (simp add: wf_buffer_def is_digit_def)
  show ?thesis using h times16_good_flag [OF h] by simp
qed




text \<open>
  Claim C4. If the buffer has \<open>D\<close> elements, each in 0..9, before \<^verbatim>\<open>times16\<close>, then
  \<^verbatim>\<open>times16\<close> returns a buffer of the same length whose elements are all in 0..9; and so
  does any number \<open>k\<close> of applications in a row: the length and the digit range hold for
  as long as the buffer is used.
\<close>

theorem times16_preserves_wf:
  assumes "wf_buffer D tail"
  shows "(\<exists>tail' out. times16 D tail = Inr (tail', out) \<and>
            length tail' = length tail \<and> (\<forall>d\<in>set tail'. 0 \<le> d \<and> d \<le> 9) \<and>
            wf_buffer D tail') \<and>
         (\<exists>tail' out. times16_iter D k tail = Inr (tail', out) \<and>
            length tail' = length tail \<and> (\<forall>d\<in>set tail'. 0 \<le> d \<and> d \<le> 9) \<and>
            wf_buffer D tail')"
proof
  have w: "wf_buffer D (exact_digits 0 tail)" by (rule exact_digits_wf [OF assms])
  then have "\<forall>d\<in>set (exact_digits 0 tail). 0 \<le> d \<and> d \<le> 9"
    by (simp add: wf_buffer_def list_all_iff is_digit_def)
  with w show "\<exists>tail' out. times16 D tail = Inr (tail', out) \<and>
            length tail' = length tail \<and> (\<forall>d\<in>set tail'. 0 \<le> d \<and> d \<le> 9) \<and>
            wf_buffer D tail'"
    using times16_wf [OF assms] by simp
next
  let ?r = "exact_iter k tail"
  have w: "wf_buffer D (fst ?r)" by (rule exact_iter_wf [OF assms])
  then have l: "length (fst ?r) = length tail" using assms by (simp add: wf_buffer_def)
  have d: "\<forall>d\<in>set (fst ?r). 0 \<le> d \<and> d \<le> 9"
    using w by (simp add: wf_buffer_def list_all_iff is_digit_def)
  have "times16_iter D k tail = Inr (fst ?r, snd ?r)"
    using times16_iter_wf [OF assms, of k] by simp
  with w l d show "\<exists>tail' out. times16_iter D k tail = Inr (tail', out) \<and>
            length tail' = length tail \<and> (\<forall>d\<in>set tail'. 0 \<le> d \<and> d \<le> 9) \<and>
            wf_buffer D tail'"
    by blast
qed

theorem times16_preserves_wf_witness:
  "wf_buffer 3 [7, 0, 9] \<and>
   (\<exists>tail' out. times16 3 [7, 0, 9] = Inr (tail', out) \<and>
      length tail' = length [7, 0, 9 :: int] \<and> (\<forall>d\<in>set tail'. 0 \<le> d \<and> d \<le> 9) \<and>
      wf_buffer 3 tail') \<and>
   (\<exists>tail' out. times16_iter 3 5 [7, 0, 9] = Inr (tail', out) \<and>
      length tail' = length [7, 0, 9 :: int] \<and> (\<forall>d\<in>set tail'. 0 \<le> d \<and> d \<le> 9) \<and>
      wf_buffer 3 tail')"
proof -
  have h: "wf_buffer 3 [7, 0, 9]" by (simp add: wf_buffer_def is_digit_def)
  show ?thesis using h times16_preserves_wf [OF h, of 5] by (intro conjI) simp_all
qed

text \<open>
  Claim C5. For every thread number below 4 (and a buffer of at least one digit), the
  initialisation returns without error; the buffer is \<open>2 ^ tid\<close> at index 0 and zero at
  every other index, so it has \<open>D\<close> elements, all in 0..9, and its value is \<open>2 ^ tid\<close>; the
  step counter is 0 and nothing has been printed.
\<close>

theorem thread_init_seed:
  assumes "0 < D" "tid < 4"
  shows "\<exists>w. thread_init D tid = Inr w \<and>
           w_tail w = 2 ^ tid # replicate (D - 1) 0 \<and>
           length (w_tail w) = D \<and>
           (\<forall>d\<in>set (w_tail w). 0 \<le> d \<and> d \<le> 9) \<and>
           digits_value (w_tail w) = 2 ^ tid \<and>
           (\<forall>i. 0 < i \<and> i < D \<longrightarrow> w_tail w ! i = 0) \<and>
           w_steps w = 0 \<and> w_out w = []"
proof -
  have t: "tid \<le> 30" using assms(2) by simp
  have d: "is_digit (2 ^ tid)" by (rule pow2_digit [OF assms(2)])
  let ?w = "\<lparr>w_tail = 2 ^ tid # replicate (D - 1) 0, w_steps = 0, w_out = []\<rparr>"
  have "thread_init D tid = Inr ?w" by (rule thread_init_pow [OF assms(1) t])
  moreover have "length (w_tail ?w) = D" using assms(1) by simp
  moreover have "\<forall>d\<in>set (w_tail ?w). 0 \<le> d \<and> d \<le> 9" using d by (auto simp: is_digit_def)
  moreover have "digits_value (w_tail ?w) = 2 ^ tid" by simp
  moreover have "\<forall>i. 0 < i \<and> i < D \<longrightarrow> w_tail ?w ! i = 0" by (auto simp: nth_Cons')
  ultimately show ?thesis by (intro exI [of _ ?w]) simp
qed

theorem thread_init_seed_witness:
  "0 < (40::nat) \<and> (3::nat) < 4 \<and>
   (\<exists>w. thread_init 40 3 = Inr w \<and>
      w_tail w = 8 # replicate 39 0 \<and>
      length (w_tail w) = 40 \<and>
      (\<forall>d\<in>set (w_tail w). 0 \<le> d \<and> d \<le> 9) \<and>
      digits_value (w_tail w) = 8 \<and>
      (\<forall>i. 0 < i \<and> i < 40 \<longrightarrow> w_tail w ! i = 0) \<and>
      w_steps w = 0 \<and> w_out w = [])"
proof -
  have h: "0 < (40::nat)" "(3::nat) < 4" by simp_all
  show ?thesis using thread_init_seed [OF h] by simp
qed

text \<open>
  Claim C6, as amended. \<^verbatim>\<open>main\<close> first compares \<^verbatim>\<open>omp_get_max_threads()\<close>, the upper bound
  on the size of a team, with 4. If it differs, the run ends there with the failed
  assertion, whatever the team would have been: the result holds no thread, so no step was
  made. If it is 4, the parallel region is entered by the team the runtime forms, each of
  its threads running the thread body; and then (for a team of at most 4, \<open>0 < D\<close>,
  \<open>0 \<le> B \<le> INT_MAX\<close> and \<open>k * B \<le> LLONG_MAX\<close>) every thread of the team has made \<open>k * B\<close>
  steps after \<open>k\<close> rounds and holds the well-formed buffer of value
  \<open>2 ^ (tid + 4 * k * B) mod 10 ^ D\<close>.
\<close>

theorem main_thread_count_check:
  "(max_threads \<noteq> 4 \<longrightarrow> main D B max_threads team k = Inl AssertionFailed) \<and>
   (max_threads = 4 \<longrightarrow>
      main D B max_threads team k = Inr (map (\<lambda>tid. thread_body D B tid k) [0..<team])) \<and>
   (max_threads = 4 \<and> team \<le> 4 \<and> 0 < D \<and> 0 \<le> B \<and> B \<le> INT_MAX \<and> int k * B \<le> LLONG_MAX \<longrightarrow>
      (\<exists>ws. main D B max_threads team k = Inr (map Inr ws) \<and> length ws = team \<and>
         (\<forall>tid<team. w_steps (ws ! tid) = int k * B \<and> wf_buffer D (w_tail (ws ! tid)) \<and>
            digits_value (w_tail (ws ! tid)) = 2 ^ (tid + 4 * (k * nat B)) mod 10 ^ D)))"
proof (intro conjI impI)
  assume "max_threads \<noteq> 4"
  then show "main D B max_threads team k = Inl AssertionFailed" by (simp add: main_def)
next
  assume "max_threads = 4"
  then show "main D B max_threads team k = Inr (map (\<lambda>tid. thread_body D B tid k) [0..<team])"
    by (simp add: main_def)
next
  assume a: "max_threads = 4 \<and> team \<le> 4 \<and> 0 < D \<and> 0 \<le> B \<and> B \<le> INT_MAX \<and> int k * B \<le> LLONG_MAX"
  then have D: "0 < D" by simp
  define W where "W = (\<lambda>tid. \<lparr>w_tail = fst (exact_iter (k * nat B) (2 ^ tid # replicate (D - 1) 0)),
         w_steps = int k * B,
         w_out = concat (map (\<lambda>j.
           snd (exact_iter (nat B) (fst (exact_iter (j * nat B) (2 ^ tid # replicate (D - 1) 0)))) @
           progress_line (int (Suc j) * B) (int tid)) [0..<k])\<rparr>)"
  have body: "\<And>tid. tid < team \<Longrightarrow> thread_body D B tid k = Inr (W tid)"
    unfolding W_def using a by (intro thread_body_ok) simp_all
  have m: "main D B max_threads team k = Inr (map Inr (map W [0..<team]))"
    using a body by (simp add: main_def)
  have "\<forall>tid<team. w_steps (map W [0..<team] ! tid) = int k * B \<and>
          wf_buffer D (w_tail (map W [0..<team] ! tid)) \<and>
          digits_value (w_tail (map W [0..<team] ! tid)) = 2 ^ (tid + 4 * (k * nat B)) mod 10 ^ D"
  proof (intro allI impI)
    fix tid :: nat assume t: "tid < team"
    then have t4: "tid < 4" using a by simp
    have n: "map W [0..<team] ! tid = W tid" using t by simp
    have "wf_buffer D (w_tail (W tid))"
      using exact_iter_wf [OF seed_wf [OF D t4], of "k * nat B"] by (simp add: W_def)
    moreover have "digits_value (w_tail (W tid)) = 2 ^ (tid + 4 * (k * nat B)) mod 10 ^ D"
      using seed_value_mod [OF D t4, of "k * nat B"] by (simp add: W_def)
    moreover have "w_steps (W tid) = int k * B" by (simp add: W_def)
    ultimately show "w_steps (map W [0..<team] ! tid) = int k * B \<and>
          wf_buffer D (w_tail (map W [0..<team] ! tid)) \<and>
          digits_value (w_tail (map W [0..<team] ! tid)) = 2 ^ (tid + 4 * (k * nat B)) mod 10 ^ D"
      unfolding n by simp
  qed
  with m show "\<exists>ws. main D B max_threads team k = Inr (map Inr ws) \<and> length ws = team \<and>
         (\<forall>tid<team. w_steps (ws ! tid) = int k * B \<and> wf_buffer D (w_tail (ws ! tid)) \<and>
            digits_value (w_tail (ws ! tid)) = 2 ^ (tid + 4 * (k * nat B)) mod 10 ^ D)"
    by (intro exI [of _ "map W [0..<team]"]) simp
qed

theorem main_thread_count_check_witness:
  "main DIGITS BATCH 3 3 1 = Inl AssertionFailed \<and>
   main DIGITS BATCH 4 4 1 = Inr (map (\<lambda>tid. thread_body DIGITS BATCH tid 1) [0..<4]) \<and>
   (\<exists>ws. main DIGITS BATCH 4 4 1 = Inr (map Inr ws) \<and> length ws = 4 \<and>
      (\<forall>tid<4. w_steps (ws ! tid) = int 1 * BATCH \<and> wf_buffer DIGITS (w_tail (ws ! tid)) \<and>
         digits_value (w_tail (ws ! tid)) = 2 ^ (tid + 4 * (1 * nat BATCH)) mod 10 ^ DIGITS))"
proof -
  have h: "(4::int) = 4 \<and> (4::nat) \<le> 4 \<and> 0 < DIGITS \<and> 0 \<le> BATCH \<and> BATCH \<le> INT_MAX \<and>
      int 1 * BATCH \<le> LLONG_MAX"
    by (simp add: DIGITS_def BATCH_def INT_MAX_def LLONG_MAX_def)
  have n: "(3::int) \<noteq> 4" by simp
  note a = main_thread_count_check [of 3 DIGITS BATCH 3 1]
  note b = main_thread_count_check [of 4 DIGITS BATCH 4 1]
  have 1: "main DIGITS BATCH 3 3 1 = Inl AssertionFailed"
    using a n by blast
  have 2: "main DIGITS BATCH 4 4 1 = Inr (map (\<lambda>tid. thread_body DIGITS BATCH tid 1) [0..<4])"
    using b by blast
  have 3: "\<exists>ws. main DIGITS BATCH 4 4 1 = Inr (map Inr ws) \<and> length ws = 4 \<and>
      (\<forall>tid<4. w_steps (ws ! tid) = int 1 * BATCH \<and> wf_buffer DIGITS (w_tail (ws ! tid)) \<and>
         digits_value (w_tail (ws ! tid)) = 2 ^ (tid + 4 * (1 * nat BATCH)) mod 10 ^ DIGITS)"
    using b h by blast
  show ?thesis using 1 2 3 by (intro conjI)
qed

text \<open>
  Claim C6 as it is worded has the size of the team checked. The source checks the upper
  bound only: when \<^verbatim>\<open>omp_get_max_threads()\<close> is 4 and the runtime forms a team of 2, the
  assertion passes and the threads 0 and 1 run.
\<close>

theorem main_thread_count_check_counterexample:
  "main DIGITS BATCH 4 2 1 = Inr [thread_body DIGITS BATCH 0 1, thread_body DIGITS BATCH 1 1] \<and>
   main DIGITS BATCH 4 2 1 \<noteq> Inl AssertionFailed"
proof -
  have "[0..<2] = [0, Suc 0]" by (simp add: upt_rec)
  then show ?thesis by (simp add: main_def)
qed

text \<open>
  Claim C7. For every well-formed buffer, \<^verbatim>\<open>times16\<close> prints something exactly when all
  \<open>D\<close> digits of the resulting buffer are even (zeros at the top included); what it prints
  then is one line: the \<open>D\<close> digits of the result as ASCII decimal digits, from index
  \<open>D - 1\<close> down to index 0, and one newline.
\<close>

theorem times16_match_line:
  assumes "wf_buffer D tail"
  shows "\<exists>tail' out.
           times16 D tail = Inr (tail', out) \<and>
           (out \<noteq> [] \<longleftrightarrow> (\<forall>i<D. tail' ! i mod 2 = 0)) \<and>
           (out \<noteq> [] \<longrightarrow>
              out = map (\<lambda>d. digit_char (nat d)) (rev tail') @ [CHR 0x0A] \<and>
              length out = D + 1 \<and>
              list_all (\<lambda>c. c \<in> set ''0123456789'') (butlast out) \<and>
              last out = CHR 0x0A)"
proof -
  let ?t = "exact_digits 0 tail"
  let ?out = "if all_even ?t then match_line ?t else []"
  have len: "length ?t = D" using assms by (simp add: wf_buffer_def)
  have e: "all_even ?t \<longleftrightarrow> (\<forall>i<D. ?t ! i mod 2 = 0)"
    using len by (simp add: all_even_def list_all_length)
  have ne: "match_line ?t \<noteq> []" by (simp add: match_line_def)
  note sh = match_line_shape [OF exact_digits_digit, of 0 tail]
  have 1: "?out \<noteq> [] \<longleftrightarrow> (\<forall>i<D. ?t ! i mod 2 = 0)"
    using e ne by simp
  have 2: "?out \<noteq> [] \<longrightarrow>
      ?out = map (\<lambda>d. digit_char (nat d)) (rev ?t) @ [CHR 0x0A] \<and>
      length ?out = D + 1 \<and>
      list_all (\<lambda>c. c \<in> set ''0123456789'') (butlast ?out) \<and>
      last ?out = CHR 0x0A"
    using sh len by (simp add: match_line_def)
  show ?thesis
    using times16_wf [OF assms] 1 2 by blast
qed

theorem times16_match_line_witness:
  "wf_buffer 4 [5, 2, 1, 0] \<and>
   (\<exists>tail' out.
      times16 4 [5, 2, 1, 0] = Inr (tail', out) \<and>
      (out \<noteq> [] \<longleftrightarrow> (\<forall>i<4. tail' ! i mod 2 = 0)) \<and>
      (out \<noteq> [] \<longrightarrow>
         out = map (\<lambda>d. digit_char (nat d)) (rev tail') @ [CHR 0x0A] \<and>
         length out = 4 + 1 \<and>
         list_all (\<lambda>c. c \<in> set ''0123456789'') (butlast out) \<and>
         last out = CHR 0x0A))"
proof -
  have h: "wf_buffer 4 [5, 2, 1, 0]" by (simp add: wf_buffer_def is_digit_def)
  show ?thesis using h times16_match_line [OF h] by simp
qed

text \<open>
  Claim C8, as amended. As long as the count fits the \<^verbatim>\<open>long long\<close> counter
  (\<open>k * B \<le> LLONG_MAX\<close>), thread \<open>tid\<close> (below 4) reaches the end of round \<open>k\<close> without
  error, having applied \<^verbatim>\<open>times16\<close> \<open>k * B\<close> times, with \<open>steps = k * B\<close>. What it has
  written is, for each round \<open>j = 0, ..., k - 1\<close> in order, what the \<open>B\<close> applications of
  that round printed (match lines: decimal digits and newlines only) followed by one
  progress line \<^verbatim>\<open>Steps: <count> from <tid>\<close> whose count is \<open>(j + 1) * B\<close>: one progress
  line per \<open>B\<close> applications, the \<open>k\<close>-th showing \<open>k * B\<close>. The parameters are those of the
  source or any other with \<open>0 < D\<close> and \<open>0 \<le> B \<le> INT_MAX\<close>.
\<close>

theorem progress_reports:
  assumes "0 < D" and "tid < 4" and "0 \<le> B" and "B \<le> INT_MAX" and "int k * B \<le> LLONG_MAX"
  shows "\<exists>w ms.
           thread_body D B tid k = Inr w \<and>
           w_steps w = int k * B \<and>
           (\<exists>out. worker_buffer D tid (k * nat B) = Inr (w_tail w, out)) \<and>
           length ms = k \<and>
           (\<forall>j<k. \<exists>t out u.
              worker_buffer D tid (j * nat B) = Inr (t, out) \<and>
              times16_iter D (nat B) t = Inr (u, ms ! j) \<and>
              list_all (\<lambda>c. c \<in> set ''0123456789\<newline>'') (ms ! j)) \<and>
           w_out w = concat (map (\<lambda>j. ms ! j @
              ''Steps: '' @ show_int (int (Suc j) * B) @ '' from '' @ show_int (int tid) @
              ''\<newline>'') [0..<k])"
proof -
  define seed where "seed = (2::int) ^ tid # replicate (D - 1) 0"
  define ms where "ms = map (\<lambda>j. snd (exact_iter (nat B) (fst (exact_iter (j * nat B) seed)))) [0..<k]"
  define w where "w = \<lparr>w_tail = fst (exact_iter (k * nat B) seed), w_steps = int k * B,
         w_out = concat (map (\<lambda>j.
           snd (exact_iter (nat B) (fst (exact_iter (j * nat B) seed))) @
           progress_line (int (Suc j) * B) (int tid)) [0..<k])\<rparr>"
  have wfs: "wf_buffer D seed" unfolding seed_def by (rule seed_wf [OF assms(1,2)])
  have body: "thread_body D B tid k = Inr w"
    unfolding w_def seed_def by (rule thread_body_ok [OF assms])
  have buf: "\<And>n. worker_buffer D tid n = Inr (fst (exact_iter n seed), snd (exact_iter n seed))"
    using worker_buffer_exact [OF assms(1,2)] by (simp add: seed_def)
  have rounds: "\<forall>j<k. \<exists>t out u.
              worker_buffer D tid (j * nat B) = Inr (t, out) \<and>
              times16_iter D (nat B) t = Inr (u, ms ! j) \<and>
              list_all (\<lambda>c. c \<in> set ''0123456789\<newline>'') (ms ! j)"
  proof (intro allI impI)
    fix j assume j: "j < k"
    let ?t = "fst (exact_iter (j * nat B) seed)"
    have m: "ms ! j = snd (exact_iter (nat B) ?t)" using j by (simp add: ms_def)
    have "times16_iter D (nat B) ?t = Inr (fst (exact_iter (nat B) ?t), ms ! j)"
      using times16_iter_wf [OF exact_iter_wf [OF wfs], of "nat B" "j * nat B"] m by simp
    moreover have "list_all (\<lambda>c. c \<in> set ''0123456789\<newline>'') (ms ! j)"
      unfolding m by (rule exact_iter_chars)
    ultimately show "\<exists>t out u.
              worker_buffer D tid (j * nat B) = Inr (t, out) \<and>
              times16_iter D (nat B) t = Inr (u, ms ! j) \<and>
              list_all (\<lambda>c. c \<in> set ''0123456789\<newline>'') (ms ! j)"
      using buf [of "j * nat B"] by blast
  qed
  have out: "w_out w = concat (map (\<lambda>j. ms ! j @
              ''Steps: '' @ show_int (int (Suc j) * B) @ '' from '' @ show_int (int tid) @
              ''\<newline>'') [0..<k])"
  proof -
    have "map (\<lambda>j. snd (exact_iter (nat B) (fst (exact_iter (j * nat B) seed))) @
           progress_line (int (Suc j) * B) (int tid)) [0..<k] =
      map (\<lambda>j. ms ! j @
              ''Steps: '' @ show_int (int (Suc j) * B) @ '' from '' @ show_int (int tid) @
              ''\<newline>'') [0..<k]"
      by (rule map_cong [OF refl]) (simp add: ms_def progress_line_def putchar_newline)
    then show ?thesis by (simp only: w_def worker.simps)
  qed
  have "w_steps w = int k * B" by (simp add: w_def)
  moreover have "worker_buffer D tid (k * nat B) = Inr (w_tail w, snd (exact_iter (k * nat B) seed))"
    unfolding buf by (simp add: w_def)
  then have "\<exists>out. worker_buffer D tid (k * nat B) = Inr (w_tail w, out)" ..
  moreover have "length ms = k" by (simp add: ms_def)
  ultimately show ?thesis
    using body rounds out by blast
qed

theorem progress_reports_witness:
  "0 < DIGITS \<and> (3::nat) < 4 \<and> 0 \<le> BATCH \<and> BATCH \<le> INT_MAX \<and> int 2 * BATCH \<le> LLONG_MAX \<and>
   (\<exists>w ms.
      thread_body DIGITS BATCH 3 2 = Inr w \<and>
      w_steps w = int 2 * BATCH \<and>
      (\<exists>out. worker_buffer DIGITS 3 (2 * nat BATCH) = Inr (w_tail w, out)) \<and>
      length ms = 2 \<and>
      (\<forall>j<2. \<exists>t out u.
         worker_buffer DIGITS 3 (j * nat BATCH) = Inr (t, out) \<and>
         times16_iter DIGITS (nat BATCH) t = Inr (u, ms ! j) \<and>
         list_all (\<lambda>c. c \<in> set ''0123456789\<newline>'') (ms ! j)) \<and>
      w_out w = concat (map (\<lambda>j. ms ! j @
         ''Steps: '' @ show_int (int (Suc j) * BATCH) @ '' from '' @ show_int (int 3) @
         ''\<newline>'') [0..<2]))"
proof -
  have h: "0 < DIGITS" "(3::nat) < 4" "0 \<le> BATCH" "BATCH \<le> INT_MAX" "int 2 * BATCH \<le> LLONG_MAX"
    by (simp_all add: DIGITS_def BATCH_def INT_MAX_def LLONG_MAX_def)
  show ?thesis
    using h progress_reports [OF h] by (intro conjI)
qed

text \<open>
  Claim C8 as it is worded holds for no more rounds than that. With the values of the
  source, 9223372036 rounds leave \<open>steps = 9223372036000000000\<close>; in the next round
  \<^verbatim>\<open>steps++\<close> goes beyond \<open>LLONG_MAX = 9223372036854775807\<close>, a signed overflow, and no
  progress line with the count \<open>9223372037 * BATCH\<close> is written: no \<^verbatim>\<open>long long\<close> holds
  that count.
\<close>

theorem progress_reports_counterexample:
  "LLONG_MAX < 9223372037 * BATCH \<and>
   thread_body DIGITS BATCH 0 9223372037 = Inl SignedOverflow"
proof -
  define w0 where "w0 = \<lparr>w_tail = 2 ^ 0 # replicate (DIGITS - 1) 0, w_steps = 0, w_out = []\<rparr>"
  have init: "thread_init DIGITS 0 = Inr w0"
    unfolding w0_def by (rule thread_init_pow) (simp_all add: DIGITS_def)
  have wf0: "wf_buffer DIGITS (w_tail w0)"
    using seed_wf [of DIGITS 0] by (simp add: w0_def DIGITS_def)
  have "worker_loop DIGITS BATCH 0 (Suc 9223372036) w0 = Inl SignedOverflow"
    by (rule worker_loop_overflow [OF wf0])
      (simp_all add: w0_def BATCH_def INT_MAX_def LLONG_MAX_def)
  then have "thread_body DIGITS BATCH 0 9223372037 = Inl SignedOverflow"
    by (simp add: thread_body_def init)
  moreover have "LLONG_MAX < 9223372037 * BATCH"
    by (simp add: BATCH_def LLONG_MAX_def)
  ultimately show ?thesis by simp
qed

text \<open>
  Claim C9. The arithmetic of \<^verbatim>\<open>times16\<close> never overflows on a well-formed buffer. At
  every index \<open>j\<close> the loop reaches (the state \<open>(t, c, g)\<close> it is in there is the result of
  the loop run up to \<open>j\<close>, and the whole loop continues from it), the carry is in 0..15,
  the digit read is in 0..9, \<^verbatim>\<open>tail[i] * 6 + carry\<close> is in 0..69 and the next carry is in
  0..15; each checked operation returns the exact sum or product, and the truncating
  \<^verbatim>\<open>/\<close> and \<^verbatim>\<open>%\<close> are the mathematical \<open>div\<close> and \<open>mod\<close>. So the loop computes what the
  exact pass computes, and \<^verbatim>\<open>times16\<close> returns a result, never an error.
\<close>

theorem times16_no_overflow:
  assumes "wf_buffer D tail" and "j < D"
  shows "\<exists>t c g.
           times16_loop j 0 (tail, 0, 1) = Inr (t, c, g) \<and>
           times16_loop D 0 (tail, 0, 1) = times16_loop D j (t, c, g) \<and>
           0 \<le> c \<and> c \<le> 15 \<and> 0 \<le> t ! j \<and> t ! j \<le> 9 \<and>
           int_mul (t ! j) 6 = Inr (t ! j * 6) \<and>
           int_add (t ! j * 6) c = Inr (t ! j * 6 + c) \<and>
           0 \<le> t ! j * 6 + c \<and> t ! j * 6 + c \<le> 69 \<and>
           (t ! j * 6 + c) sdiv 10 = (t ! j * 6 + c) div 10 \<and>
           (t ! j * 6 + c) smod 10 = (t ! j * 6 + c) mod 10 \<and>
           int_add (t ! j) ((t ! j * 6 + c) sdiv 10) = Inr (t ! j + (t ! j * 6 + c) div 10) \<and>
           0 \<le> t ! j + (t ! j * 6 + c) div 10 \<and> t ! j + (t ! j * 6 + c) div 10 \<le> 15 \<and>
           times16_loop D 0 (tail, 0, 1) =
             Inr (exact_digits 0 tail, exact_carry 0 tail,
                  if all_even (exact_digits 0 tail) then 1 else 0) \<and>
           (\<exists>r. times16 D tail = Inr r)"
proof -
  define t where "t = exact_digits 0 (take j tail) @ drop j tail"
  define c where "c = exact_carry 0 (take j tail)"
  define g :: int where "g = (if all_even (exact_digits 0 (take j tail)) then 1 else 0)"
  have len: "length tail = D" and dig: "list_all is_digit tail"
    using assms(1) by (simp_all add: wf_buffer_def)
  have pre: "times16_loop j 0 (tail, 0, 1) = Inr (t, c, g)"
    using times16_loop_prefix [OF assms(1), of j] assms(2) by (simp add: t_def c_def g_def)
  have split: "times16_loop D 0 (tail, 0, 1) = times16_loop D j (t, c, g)"
    using times16_loop_split [of 0 j D "(tail, 0, 1)"] assms(2) pre by simp
  have digj: "list_all is_digit (take j tail)"
    using dig by (auto simp: list_all_iff dest: in_set_takeD)
  have cb: "0 \<le> c" "c \<le> 15"
    using exact_carry_bound [OF digj, of 0] by (simp_all add: c_def)
  have tj: "t ! j = tail ! j"
    using assms(2) len by (simp add: t_def nth_append)
  have d: "is_digit (t ! j)"
    using dig assms(2) len tj by (simp add: list_all_length)
  note b = step_bounds [OF d cb]
  have m: "int_mul (t ! j) 6 = Inr (t ! j * 6)" by (rule int_mul_digit [OF d])
  have a1: "int_add (t ! j * 6) c = Inr (t ! j * 6 + c)"
    using d cb by (intro int_add_small) (auto simp: is_digit_def)
  have q: "(t ! j * 6 + c) sdiv 10 = (t ! j * 6 + c) div 10" by (rule sdiv_nonneg [OF b(1)])
  have r: "(t ! j * 6 + c) smod 10 = (t ! j * 6 + c) mod 10" by (rule smod_nonneg [OF b(1)]) simp
  have a2: "int_add (t ! j) ((t ! j * 6 + c) sdiv 10) = Inr (t ! j + (t ! j * 6 + c) div 10)"
    unfolding q using d b(3,4) by (intro int_add_small) (auto simp: is_digit_def)
  have d': "0 \<le> t ! j" "t ! j \<le> 9" using d by (simp_all add: is_digit_def)
  have ex: "\<exists>r. times16 D tail = Inr r" using times16_wf [OF assms(1)] by simp
  show ?thesis
    using pre split cb d' m a1 b(1,2) q r a2 b(5,6) times16_loop_wf [OF assms(1)] ex
    by blast
qed

theorem times16_no_overflow_witness:
  "wf_buffer 2 [9, 9] \<and> (1::nat) < 2 \<and>
   (\<exists>t c g.
      times16_loop 1 0 ([9, 9], 0, 1) = Inr (t, c, g) \<and>
      times16_loop 2 0 ([9, 9], 0, 1) = times16_loop 2 1 (t, c, g) \<and>
      0 \<le> c \<and> c \<le> 15 \<and> 0 \<le> t ! 1 \<and> t ! 1 \<le> 9 \<and>
      int_mul (t ! 1) 6 = Inr (t ! 1 * 6) \<and>
      int_add (t ! 1 * 6) c = Inr (t ! 1 * 6 + c) \<and>
      0 \<le> t ! 1 * 6 + c \<and> t ! 1 * 6 + c \<le> 69 \<and>
      (t ! 1 * 6 + c) sdiv 10 = (t ! 1 * 6 + c) div 10 \<and>
      (t ! 1 * 6 + c) smod 10 = (t ! 1 * 6 + c) mod 10 \<and>
      int_add (t ! 1) ((t ! 1 * 6 + c) sdiv 10) = Inr (t ! 1 + (t ! 1 * 6 + c) div 10) \<and>
      0 \<le> t ! 1 + (t ! 1 * 6 + c) div 10 \<and> t ! 1 + (t ! 1 * 6 + c) div 10 \<le> 15 \<and>
      times16_loop 2 0 ([9, 9], 0, 1) = Inr ([4, 8], 15, 1) \<and>
      (\<exists>r. times16 2 [9, 9] = Inr r))"
proof -
  have h: "wf_buffer 2 [9, 9]" by (simp add: wf_buffer_def is_digit_def)
  have j: "(1::nat) < 2" by simp
  show ?thesis using h j times16_no_overflow [OF h j] by (simp add: all_even_def)
qed

text \<open>
  Claim C10. The buffer of \<open>D\<close> zeros is a fixed point of \<^verbatim>\<open>times16\<close>, which prints it at
  every application: one application returns the buffer of \<open>D\<close> zeros and prints the line of
  \<open>D\<close> characters \<^verbatim>\<open>0\<close> and a newline, and \<open>k\<close> applications in a row return it and print
  that line \<open>k\<close> times. The buffer of zeros is not one a thread reaches: after any number of
  applications to the seed \<open>2 ^ i\<close> (\<open>i\<close> below 4, \<open>D\<close> positive) the buffer differs from it.
\<close>

theorem times16_zero_fixed_point:
  "times16 D (replicate D 0) = Inr (replicate D 0, replicate D (CHR ''0'') @ [CHR 0x0A]) \<and>
   times16_iter D k (replicate D 0) =
     Inr (replicate D 0, concat (replicate k (replicate D (CHR ''0'') @ [CHR 0x0A]))) \<and>
   (0 < D \<and> i < 4 \<longrightarrow> (\<forall>t out. worker_buffer D i n = Inr (t, out) \<longrightarrow> t \<noteq> replicate D 0))"
proof (intro conjI impI allI)
  have w: "wf_buffer D (replicate D 0)"
    by (simp add: wf_buffer_def list_all_iff is_digit_def)
  have e: "all_even (replicate D 0)" by (simp add: all_even_def list_all_iff)
  have "match_line (replicate D 0) = replicate D (CHR ''0'') @ [CHR 0x0A]"
    by (simp add: match_line_def digit_char_def map_replicate_const)
  with e show "times16 D (replicate D 0) = Inr (replicate D 0, replicate D (CHR ''0'') @ [CHR 0x0A])"
    using times16_wf [OF w] by (simp add: exact_digits_zero)
  show "times16_iter D k (replicate D 0) =
     Inr (replicate D 0, concat (replicate k (replicate D (CHR ''0'') @ [CHR 0x0A])))"
    by (simp only: times16_iter_wf [OF w] exact_iter_zero)
next
  fix t out
  assume a: "0 < D \<and> i < 4" and b: "worker_buffer D i n = Inr (t, out)"
  from a have D: "0 < D" and i: "i < 4" by simp_all
  have "t = fst (exact_iter n (2 ^ i # replicate (D - 1) 0))"
    using b worker_buffer_exact [OF D i, of n] by simp
  then have "digits_value t = 2 ^ (i + 4 * n) mod 10 ^ D"
    using seed_value_mod [OF D i, of n] by simp
  then have "digits_value t \<noteq> 0" using pow2_mod_pow10 [OF D] by simp
  then show "t \<noteq> replicate D 0" by auto
qed

theorem times16_zero_fixed_point_witness:
  "times16 DIGITS (replicate DIGITS 0) =
     Inr (replicate DIGITS 0, ''0000000000000000000000000000000000000000\<newline>'') \<and>
   0 < DIGITS \<and> (3::nat) < 4 \<and>
   (\<exists>t out. worker_buffer DIGITS 3 2 = Inr (t, out) \<and> t \<noteq> replicate DIGITS 0)"
proof -
  have h: "0 < DIGITS \<and> (3::nat) < 4" by (simp add: DIGITS_def)
  note z = times16_zero_fixed_point [of DIGITS 0 3 2]
  have r: "replicate DIGITS (CHR ''0'') @ [CHR 0x0A] = ''0000000000000000000000000000000000000000\<newline>''"
    unfolding DIGITS_def by code_simp
  have 1: "times16 DIGITS (replicate DIGITS 0) =
     Inr (replicate DIGITS 0, ''0000000000000000000000000000000000000000\<newline>'')"
    using z r by simp
  obtain t out where b: "worker_buffer DIGITS 3 2 = Inr (t, out)"
    using worker_buffer_exact [of DIGITS 3 2] h by (metis surj_pair)
  with z h have "t \<noteq> replicate DIGITS 0" by blast
  with b 1 h show ?thesis by blast
qed

end
